theory Spec2Isabelle
  imports Main
begin

section \<open>The parser of src/parsing.ts as HOL functions\<close>

subsection \<open>Strings and nodes\<close>

text \<open>
  The parser splits its input with \<^verbatim>\<open>[...input]\<close>, one array element per Unicode code
  point, and indexes that array.  A string is modelled as the list of its code points, a
  code point as a natural number.  The literals of the source are all ASCII, so that their
  \<^verbatim>\<open>.length\<close> is their number of code points.
\<close>

type_synonym codepoint = nat
type_synonym ustring = "codepoint list"

definition lit :: "string \<Rightarrow> ustring" where
  "lit s = map of_char s"

definition CR :: ustring where
  "CR = [13]"

definition LF :: ustring where
  "LF = [10]"

definition BACKSLASH :: ustring where
  "BACKSLASH = [92]"

text \<open>
  Modelled from the spec: the type \<^verbatim>\<open>MarkdownNode\<close> of \<^verbatim>\<open>./ast\<close>, which is imported by
  parsing.ts and is not among the sources.  The constructors are the nine variants of the
  data model, with the fields of the object literals that parsing.ts builds.
\<close>

datatype node =
    Fragment "node list"
  | Paragraph "node list"
  | Text ustring
  | Italic node
  | Bold node
  | Strike node
  | Code ustring
  | Image ustring ustring
  | Link ustring node

text \<open>The fields of \<^verbatim>\<open>Image\<close> are \<^verbatim>\<open>src\<close> and \<^verbatim>\<open>alt\<close>, those of \<^verbatim>\<open>Link\<close> are \<^verbatim>\<open>href\<close> and
  \<^verbatim>\<open>children\<close>, in this order.\<close>

fun is_paragraph :: "node \<Rightarrow> bool" where
  "is_paragraph (Paragraph cs) = True"
| "is_paragraph n = False"

fun node_children :: "node \<Rightarrow> node list" where
  "node_children (Paragraph cs) = cs"
| "node_children (Fragment cs) = cs"
| "node_children n = []"

text \<open>
  \<^verbatim>\<open>MismatchError\<close> is the exception class of the source; \<^verbatim>\<open>OtherError\<close> stands for every
  thrown value that is not an instance of it, which the handler of \<^verbatim>\<open>parseNext\<close> throws again.
\<close>

datatype error = MismatchError | OtherError

subsection \<open>The cursor\<close>

record cursor =
  chars :: ustring
  index :: nat

definition NEWLINE :: "ustring list" where
  "NEWLINE = [CR @ LF, CR, LF]"

definition NEW_PARAGRAPH :: "ustring list" where
  "NEW_PARAGRAPH = concat (map (\<lambda>prefix. map (\<lambda>suffix. prefix @ suffix) NEWLINE) NEWLINE)"

definition is_done :: "cursor \<Rightarrow> bool" where
  "is_done s = (index s \<ge> length (chars s))"

text \<open>\<^verbatim>\<open>this.current\<close> is \<^verbatim>\<open>undefined\<close> (here \<open>None\<close>) when the index is out of range.\<close>

definition current :: "cursor \<Rightarrow> ustring option" where
  "current s = (if index s < length (chars s) then Some [chars s ! index s] else None)"

text \<open>\<^verbatim>\<open>text += this.current\<close>: string concatenation writes \<^verbatim>\<open>undefined\<close> out.\<close>

definition plus_current :: "ustring \<Rightarrow> cursor \<Rightarrow> ustring" where
  "plus_current text s = text @ (case current s of Some c \<Rightarrow> c | None \<Rightarrow> lit ''undefined'')"

definition advance :: "nat \<Rightarrow> cursor \<Rightarrow> cursor" where
  "advance n s = s\<lparr>index := index s + n\<rparr>"

definition seek :: "nat \<Rightarrow> cursor \<Rightarrow> cursor" where
  "seek i s = s\<lparr>index := i\<rparr>"

definition getSlice :: "nat \<Rightarrow> nat \<Rightarrow> cursor \<Rightarrow> ustring" where
  "getSlice start end s = take (end - start) (drop start (chars s))"

definition lookAhead :: "nat \<Rightarrow> cursor \<Rightarrow> ustring option" where
  "lookAhead n s = (if n = 1 then current s else Some (getSlice (index s) (index s + n) s))"

definition matches :: "ustring list \<Rightarrow> cursor \<Rightarrow> bool" where
  "matches lookahead s = list_ex (\<lambda>substring. lookAhead (length substring) s = Some substring) lookahead"

fun match :: "ustring list \<Rightarrow> cursor \<Rightarrow> (error + unit) \<times> cursor" where
  "match [] s = (Inl MismatchError, s)"
| "match (substring # rest) s =
     (if lookAhead (length substring) s = Some substring
      then (Inr (), advance (length substring) s)
      else match rest s)"

subsection \<open>parseText\<close>

function parseText_loop :: "ustring \<Rightarrow> ustring \<Rightarrow> cursor \<Rightarrow> ustring \<times> cursor" where
  "parseText_loop end text s =
     (if is_done s then (text, s)
      else if current s = Some BACKSLASH \<and> index s + 1 < length (chars s) then
        parseText_loop end (plus_current text (advance 1 s)) (advance 1 (advance 1 s))
      else if end = [] \<or> matches [end] s \<or> matches NEWLINE s then (text, s)
      else parseText_loop end (plus_current text s) (advance 1 s))"
  by pat_completeness auto
termination
  by (relation "measure (\<lambda>(e, t, s). length (chars s) - index s)")
     (auto simp: is_done_def advance_def)

definition parseText :: "ustring \<Rightarrow> cursor \<Rightarrow> ustring \<times> cursor" where
  "parseText end s = parseText_loop end [] s"

text \<open>\<^verbatim>\<open>String.prototype.trim\<close> removes the white space and line terminators of ECMAScript.\<close>

definition js_whitespace :: "codepoint \<Rightarrow> bool" where
  "js_whitespace c =
     (c \<in> {9, 10, 11, 12, 13, 32, 160, 5760, 8232, 8233, 8239, 8287, 12288, 65279}
      \<or> (8192 \<le> c \<and> c \<le> 8202))"

definition trim :: "ustring \<Rightarrow> ustring" where
  "trim s = rev (dropWhile js_whitespace (rev (dropWhile js_whitespace s)))"

subsection \<open>parseNext and parseCurrent\<close>

text \<open>Lines 55 to 57: the cursor skips every code point that is a member of \<^verbatim>\<open>NEWLINE\<close>.\<close>

function skipNewlines :: "cursor \<Rightarrow> cursor" where
  "skipNewlines s =
     (if (case current s of None \<Rightarrow> False | Some c \<Rightarrow> c \<in> set NEWLINE)
      then skipNewlines (advance 1 s) else s)"
  by pat_completeness auto
termination
  by (relation "measure (\<lambda>s. length (chars s) - index s)")
     (auto simp: current_def advance_def split: if_splits)

text \<open>
  \<^verbatim>\<open>root\<close> is modelled by the list \<^verbatim>\<open>root.children\<close>.  Lines 112 to 116 and 131 to 135 choose
  the array that receives new nodes: that of the last child when it is a paragraph, that of
  the root otherwise.
\<close>

definition push_children :: "node list \<Rightarrow> node list \<Rightarrow> node list" where
  "push_children root ns =
     (if root \<noteq> [] \<and> is_paragraph (last root)
      then butlast root @ [Paragraph (node_children (last root) @ ns)]
      else root @ ns)"

text \<open>Lines 59 to 84, the promotion to paragraphs; the result is the new \<^verbatim>\<open>root.children\<close> and
  the new \<^verbatim>\<open>text\<close>.\<close>

definition promote :: "node list \<Rightarrow> ustring \<Rightarrow> node list \<times> ustring" where
  "promote root text =
     (if text \<noteq> [] \<or> length root > 0 then
        (let root1 = (if root \<noteq> [] \<and> is_paragraph (last root) then root else [Paragraph root]);
             root2 = (if text \<noteq> []
                      then butlast root1 @ [Paragraph (node_children (last root1) @ [Text text])]
                      else root1)
         in (root2 @ [Paragraph []], []))
      else (root, text))"

text \<open>Lines 130 to 153, after the loop.\<close>

definition finish :: "node list \<Rightarrow> ustring \<Rightarrow> node" where
  "finish root text =
     (let root1 = (if text \<noteq> [] then push_children root [Text text] else root);
          root2 = (if root1 \<noteq> [] \<and> last root1 = Paragraph [] then butlast root1 else root1)
      in if length root2 = 1 then root2 ! 0 else Fragment root2)"

text \<open>
  The two procedures call each other, and the loop of \<^verbatim>\<open>parseNext\<close> is a third recursive
  function.  The first argument bounds the depth of the calls: every call and every turn of
  the loop takes one unit, and \<open>None\<close> says that the bound was too small.  A result is the
  returned value or the thrown error, with the cursor as the call left it.
\<close>

fun parseNext_loop ::
    "nat \<Rightarrow> ustring \<Rightarrow> node list \<Rightarrow> ustring \<Rightarrow> cursor \<Rightarrow> ((error + node list \<times> ustring) \<times> cursor) option"
  and parseNext :: "nat \<Rightarrow> ustring \<Rightarrow> cursor \<Rightarrow> ((error + node) \<times> cursor) option"
  and parseCurrent :: "nat \<Rightarrow> cursor \<Rightarrow> ((error + node option) \<times> cursor) option"
where
  "parseNext_loop 0 end root text s = None"
| "parseNext_loop (Suc f) end root text s =
     (if is_done s then Some (Inr (root, text), s)
      else case parseText [] s of (escapedText, s1) \<Rightarrow>
        if escapedText \<noteq> [] then parseNext_loop f end root (text @ escapedText) s1
        else if end \<noteq> [] \<and> (matches [end] s1 \<or> matches NEWLINE s1) then Some (Inr (root, text), s1)
        else if matches NEW_PARAGRAPH s1 then
          (case promote root text of (root', text') \<Rightarrow>
             parseNext_loop f end root' text' (skipNewlines s1))
        else
          (case parseCurrent f s1 of
             None \<Rightarrow> None
           | Some (Inl OtherError, s2) \<Rightarrow> Some (Inl OtherError, s2)
           | Some (Inl MismatchError, s2) \<Rightarrow>
               (let s3 = seek (index s1) s2
                in parseNext_loop f end root (plus_current text s3) (advance 1 s3))
           | Some (Inr None, s2) \<Rightarrow>
               (let s3 = seek (index s1) s2
                in parseNext_loop f end root (plus_current text s3) (advance 1 s3))
           | Some (Inr (Some node), s2) \<Rightarrow>
               parseNext_loop f end
                 (push_children root ((if text \<noteq> [] then [Text text] else []) @ [node])) [] s2))"
| "parseNext 0 end s = None"
| "parseNext (Suc f) end s =
     (case parseNext_loop f end [] [] s of
        None \<Rightarrow> None
      | Some (Inl e, s') \<Rightarrow> Some (Inl e, s')
      | Some (Inr (root, text), s') \<Rightarrow> Some (Inr (finish root text), s'))"
| "parseCurrent 0 s = None"
| "parseCurrent (Suc f) s =
     (case lookAhead 1 s of
        None \<Rightarrow> Some (Inr None, s)
      | Some char \<Rightarrow>
          if char = lit ''*'' \<or> char = lit ''_'' then
            (let delimiter = (if matches [lit ''**''] s then lit ''**'' else char)
             in case parseNext f delimiter (advance (length delimiter) s) of
                  None \<Rightarrow> None
                | Some (Inl e, s1) \<Rightarrow> Some (Inl e, s1)
                | Some (Inr children, s1) \<Rightarrow>
                    (case match [delimiter] s1 of
                       (Inl e, s2) \<Rightarrow> Some (Inl e, s2)
                     | (Inr u, s2) \<Rightarrow>
                         Some (Inr (Some (if length delimiter = 1 then Italic children
                                          else Bold children)), s2)))
          else if char = lit ''~'' then
            (case match [lit ''~~''] s of
               (Inl e, s1) \<Rightarrow> Some (Inl e, s1)
             | (Inr u, s1) \<Rightarrow>
                 (case parseNext f (lit ''~~'') s1 of
                    None \<Rightarrow> None
                  | Some (Inl e, s2) \<Rightarrow> Some (Inl e, s2)
                  | Some (Inr children, s2) \<Rightarrow>
                      (case match [lit ''~~''] s2 of
                         (Inl e, s3) \<Rightarrow> Some (Inl e, s3)
                       | (Inr u, s3) \<Rightarrow> Some (Inr (Some (Strike children)), s3))))
          else if char = lit ''`'' then
            (if matches [lit ''```''] s then Some (Inr None, s)
             else
               (let delimiter = (if matches [lit ''``''] s then lit ''``'' else lit ''`'')
                in case match [delimiter] s of
                     (Inl e, s1) \<Rightarrow> Some (Inl e, s1)
                   | (Inr u, s1) \<Rightarrow>
                       (case parseText delimiter s1 of (scanned, s2) \<Rightarrow>
                          (let content = trim scanned
                           in if matches [lit ''```''] s2 then Some (Inr None, s2)
                              else case match [delimiter] s2 of
                                     (Inl e, s3) \<Rightarrow> Some (Inl e, s3)
                                   | (Inr u, s3) \<Rightarrow> Some (Inr (Some (Code content)), s3)))))
          else if char = lit ''!'' then
            (let s1 = advance 1 s
             in case match [lit ''[''] s1 of
                  (Inl e, s2) \<Rightarrow> Some (Inl e, s2)
                | (Inr u, s2) \<Rightarrow>
                    (case parseText (lit '']'') s2 of (alt, s3) \<Rightarrow>
                       (case match [lit ''](''] s3 of
                          (Inl e, s4) \<Rightarrow> Some (Inl e, s4)
                        | (Inr u, s4) \<Rightarrow>
                            (case parseText (lit '')'') s4 of (src, s5) \<Rightarrow>
                               (case match [lit '')''] s5 of
                                  (Inl e, s6) \<Rightarrow> Some (Inl e, s6)
                                | (Inr u, s6) \<Rightarrow> Some (Inr (Some (Image src alt)), s6))))))
          else if char = lit ''['' then
            (case parseNext f (lit '']'') (advance 1 s) of
               None \<Rightarrow> None
             | Some (Inl e, s1) \<Rightarrow> Some (Inl e, s1)
             | Some (Inr label, s1) \<Rightarrow>
                 (case match [lit ''](''] s1 of
                    (Inl e, s2) \<Rightarrow> Some (Inl e, s2)
                  | (Inr u, s2) \<Rightarrow>
                      (case parseText (lit '')'') s2 of (href, s3) \<Rightarrow>
                         (case match [lit '')''] s3 of
                            (Inl e, s4) \<Rightarrow> Some (Inl e, s4)
                          | (Inr u, s4) \<Rightarrow> Some (Inr (Some (Link href label)), s4)))))
          else Some (Inr None, s))"

subsection \<open>parse\<close>

text \<open>The constructor (lines 25 to 27): the code points of the input, the index at 0.\<close>

definition new_parser :: "ustring \<Rightarrow> cursor" where
  "new_parser input = \<lparr>chars = input, index = 0\<rparr>"

text \<open>
  \<^verbatim>\<open>parse\<close> (lines 3 to 5 and 29 to 31) calls \<^verbatim>\<open>parseNext\<close> with the default terminator,
  the empty string.  \<open>parse_fuel\<close> is that call under a given depth bound; \<open>parse\<close> takes
  the bound \<open>3 * length input + 2\<close>, which is enough for every input (shown below, as is
  that a larger bound gives the same result).
\<close>

definition parse_fuel :: "nat \<Rightarrow> ustring \<Rightarrow> (error + node) option" where
  "parse_fuel f input = map_option fst (parseNext f [] (new_parser input))"

definition parse :: "ustring \<Rightarrow> (error + node) option" where
  "parse input = parse_fuel (3 * length input + 2) input"

subsection \<open>Predicates on trees and on the cursor\<close>

text \<open>No paragraph node occurs anywhere in the tree.\<close>

fun para_free :: "node \<Rightarrow> bool" where
  "para_free (Fragment cs) = list_all para_free cs"
| "para_free (Paragraph cs) = False"
| "para_free (Text t) = True"
| "para_free (Italic n) = para_free n"
| "para_free (Bold n) = para_free n"
| "para_free (Strike n) = para_free n"
| "para_free (Code c) = True"
| "para_free (Image src alt) = True"
| "para_free (Link href n) = para_free n"

text \<open>An italic or bold node occurs somewhere in the tree.\<close>

fun has_emphasis :: "node \<Rightarrow> bool" where
  "has_emphasis (Fragment cs) = list_ex has_emphasis cs"
| "has_emphasis (Paragraph cs) = list_ex has_emphasis cs"
| "has_emphasis (Text t) = False"
| "has_emphasis (Italic n) = True"
| "has_emphasis (Bold n) = True"
| "has_emphasis (Strike n) = has_emphasis n"
| "has_emphasis (Code c) = False"
| "has_emphasis (Image src alt) = False"
| "has_emphasis (Link href n) = has_emphasis n"

text \<open>A node that is a paragraph without paragraphs below it, or has no paragraph at all.\<close>

fun para_child_ok :: "node \<Rightarrow> bool" where
  "para_child_ok (Paragraph cs) = list_all para_free cs"
| "para_child_ok n = para_free n"

text \<open>
  Paragraphs occur only as children of the root: the root is a fragment whose children are
  paragraphs with no paragraph inside, or nodes with no paragraph at all; a root that is
  not a fragment has no paragraph at all.
\<close>

definition paragraphs_only_under_root :: "node \<Rightarrow> bool" where
  "paragraphs_only_under_root n =
     (case n of Fragment cs \<Rightarrow> list_all para_child_ok cs | _ \<Rightarrow> para_free n)"

text \<open>The same, where the root may also be a paragraph itself.\<close>

definition paragraphs_at_top :: "node \<Rightarrow> bool" where
  "paragraphs_at_top n =
     (case n of Fragment cs \<Rightarrow> list_all para_child_ok cs | _ \<Rightarrow> para_child_ok n)"

text \<open>
  The two shapes of \<^verbatim>\<open>root.children\<close> in the loop of the outermost \<^verbatim>\<open>parseNext\<close>: no
  paragraph at all, or paragraphs only, none of them with a paragraph inside.
\<close>

definition top_inv :: "node list \<Rightarrow> bool" where
  "top_inv root =
     (list_all para_free root
      \<or> (root \<noteq> [] \<and> list_all (\<lambda>c. is_paragraph c \<and> list_all para_free (node_children c)) root))"




text \<open>The text of a candidate stands in the input at the current position.\<close>

definition literal_at :: "ustring \<Rightarrow> cursor \<Rightarrow> bool" where
  "literal_at c s = (take (length c) (drop (index s) (chars s)) = c)"

text \<open>
  The words of the specification for the end of \<^verbatim>\<open>parseNext\<close>: pending text is flushed to
  the last paragraph, or to the root when its last child is no paragraph; a trailing empty
  paragraph is removed; a root with exactly one child is replaced by that child.
\<close>

definition flush_text :: "node list \<Rightarrow> ustring \<Rightarrow> node list" where
  "flush_text root text =
     (if text = [] then root
      else case rev root of
             Paragraph cs # before \<Rightarrow> rev before @ [Paragraph (cs @ [Text text])]
           | _ \<Rightarrow> root @ [Text text])"

definition without_trailing_empty_paragraph :: "node list \<Rightarrow> node list" where
  "without_trailing_empty_paragraph root =
     (case rev root of Paragraph [] # before \<Rightarrow> rev before | _ \<Rightarrow> root)"

definition collapse :: "node list \<Rightarrow> node" where
  "collapse root = (case root of [child] \<Rightarrow> child | _ \<Rightarrow> Fragment root)"

subsection \<open>Auxiliary definitions for the proofs\<close>

text \<open>
  The parts of \<^verbatim>\<open>parseCurrent\<close> around its calls of \<^verbatim>\<open>parseNext\<close>, by name: the choice of
  the emphasis delimiter (line 162) and what follows the nested call for emphasis (lines
  168 to 173), strike-through (lines 181 to 186) and links (lines 237 to 247).
\<close>

definition emphasis_delimiter :: "cursor \<Rightarrow> ustring \<Rightarrow> ustring" where
  "emphasis_delimiter s char = (if matches [lit ''**''] s then lit ''**'' else char)"

definition close_emphasis ::
    "ustring \<Rightarrow> (error + node) \<times> cursor \<Rightarrow> (error + node option) \<times> cursor" where
  "close_emphasis delimiter rs =
     (case rs of
        (Inl e, s1) \<Rightarrow> (Inl e, s1)
      | (Inr children, s1) \<Rightarrow>
          (case match [delimiter] s1 of
             (Inl e, s2) \<Rightarrow> (Inl e, s2)
           | (Inr u, s2) \<Rightarrow>
               (Inr (Some (if length delimiter = 1 then Italic children else Bold children)), s2)))"

definition close_strike :: "(error + node) \<times> cursor \<Rightarrow> (error + node option) \<times> cursor" where
  "close_strike rs =
     (case rs of
        (Inl e, s2) \<Rightarrow> (Inl e, s2)
      | (Inr children, s2) \<Rightarrow>
          (case match [lit ''~~''] s2 of
             (Inl e, s3) \<Rightarrow> (Inl e, s3)
           | (Inr u, s3) \<Rightarrow> (Inr (Some (Strike children)), s3)))"

definition close_link :: "(error + node) \<times> cursor \<Rightarrow> (error + node option) \<times> cursor" where
  "close_link rs =
     (case rs of
        (Inl e, s1) \<Rightarrow> (Inl e, s1)
      | (Inr label, s1) \<Rightarrow>
          (case match [lit ''](''] s1 of
             (Inl e, s2) \<Rightarrow> (Inl e, s2)
           | (Inr u, s2) \<Rightarrow>
               (case parseText (lit '')'') s2 of (href, s3) \<Rightarrow>
                  (case match [lit '')''] s3 of
                     (Inl e, s4) \<Rightarrow> (Inl e, s4)
                   | (Inr u, s4) \<Rightarrow> (Inr (Some (Link href label)), s4)))))"


section \<open>Facts about the cursor and the scanners\<close>

declare parseText_loop.simps [simp del] skipNewlines.simps [simp del]

lemma match_chars: "match cs s = (r, s') \<Longrightarrow> chars s' = chars s"
  by (induction cs) (auto simp: advance_def split: if_splits)

lemma match_index: "match cs s = (r, s') \<Longrightarrow> index s \<le> index s'"
  by (induction cs) (auto simp: advance_def split: if_splits)

lemma match_error: "match cs s = (Inl e, s') \<Longrightarrow> e = MismatchError \<and> s' = s"
  by (induction cs) (auto split: if_splits)

lemma match_single:
  "match [c] s = (if lookAhead (length c) s = Some c then (Inr (), advance (length c) s)
                  else (Inl MismatchError, s))"
  by simp

lemma match_single_progress: "match [c] s = (Inr u, s') \<Longrightarrow> c \<noteq> [] \<Longrightarrow> index s < index s'"
  by (auto simp: advance_def split: if_splits)

lemma length_plus_current: "length text < length (plus_current text s)"
  by (simp add: plus_current_def current_def lit_def)

lemma parseText_loop_done: "is_done s \<Longrightarrow> parseText_loop e acc s = (acc, s)"
  by (subst parseText_loop.simps) simp

lemma parseText_loop_escape:
  "\<not> is_done s \<Longrightarrow> current s = Some BACKSLASH \<Longrightarrow> index s + 1 < length (chars s) \<Longrightarrow>
   parseText_loop e acc s
     = parseText_loop e (plus_current acc (advance 1 s)) (advance 1 (advance 1 s))"
  by (subst parseText_loop.simps) simp

lemma parseText_loop_stop:
  "\<not> is_done s \<Longrightarrow> \<not> (current s = Some BACKSLASH \<and> index s + 1 < length (chars s)) \<Longrightarrow>
   e = [] \<or> matches [e] s \<or> matches NEWLINE s \<Longrightarrow> parseText_loop e acc s = (acc, s)"
  by (subst parseText_loop.simps) auto

lemma parseText_loop_step:
  "\<not> is_done s \<Longrightarrow> \<not> (current s = Some BACKSLASH \<and> index s + 1 < length (chars s)) \<Longrightarrow>
   \<not> (e = [] \<or> matches [e] s \<or> matches NEWLINE s) \<Longrightarrow>
   parseText_loop e acc s = parseText_loop e (plus_current acc s) (advance 1 s)"
  by (subst parseText_loop.simps) auto

lemma parseText_loop_facts:
  "parseText_loop e acc s = (t, s') \<Longrightarrow>
     chars s' = chars s \<and> index s \<le> index s' \<and> length acc \<le> length t
     \<and> (length t = length acc \<longrightarrow> s' = s) \<and> (index s' = index s \<longrightarrow> t = acc)"
proof (induction e acc s rule: parseText_loop.induct)
  case (1 e acc s)
  show ?case
  proof (cases "is_done s")
    case True
    with "1.prems" show ?thesis by (simp add: parseText_loop_done)
  next
    case nd: False
    show ?thesis
    proof (cases "current s = Some BACKSLASH \<and> index s + 1 < length (chars s)")
      case True
      with nd "1.prems" have
        eq: "parseText_loop e (plus_current acc (advance 1 s)) (advance 1 (advance 1 s)) = (t, s')"
        by (simp add: parseText_loop_escape)
      from "1.IH"(1) [OF nd True eq] length_plus_current [of acc "advance 1 s"]
      show ?thesis by (auto simp: advance_def)
    next
      case esc: False
      show ?thesis
      proof (cases "e = [] \<or> matches [e] s \<or> matches NEWLINE s")
        case True
        with nd esc "1.prems" show ?thesis by (simp add: parseText_loop_stop)
      next
        case False
        with nd esc "1.prems" have
          eq: "parseText_loop e (plus_current acc s) (advance 1 s) = (t, s')"
          by (simp add: parseText_loop_step)
        from "1.IH"(2) [OF nd esc False eq] length_plus_current [of acc s]
        show ?thesis by (auto simp: advance_def)
      qed
    qed
  qed
qed

lemma parseText_facts:
  "parseText e s = (t, s') \<Longrightarrow>
     chars s' = chars s \<and> index s \<le> index s' \<and> (t = [] \<longrightarrow> s' = s)
     \<and> (t \<noteq> [] \<longrightarrow> index s < index s')"
  using parseText_loop_facts [of e "[]" s t s'] by (auto simp: parseText_def)

lemma skipNewlines_facts:
  "chars (skipNewlines s) = chars s \<and> index s \<le> index (skipNewlines s)"
proof (induction s rule: skipNewlines.induct)
  case (1 s)
  show ?case
  proof (cases "case current s of None \<Rightarrow> False | Some c \<Rightarrow> c \<in> set NEWLINE")
    case True
    with "1.IH" show ?thesis
      by (simp add: skipNewlines.simps [of s] advance_def)
  next
    case False
    then show ?thesis by (simp add: skipNewlines.simps [of s])
  qed
qed

lemma take_drop_Cons:
  "take n (drop i xs) = a # as \<Longrightarrow> i < length xs \<and> xs ! i = a"
proof -
  assume h: "take n (drop i xs) = a # as"
  then have ne: "drop i xs \<noteq> []" by auto
  then have lt: "i < length xs" by simp
  from h have "hd (take n (drop i xs)) = a" by simp
  moreover from h have "n \<noteq> 0" by (cases n) auto
  ultimately have "hd (drop i xs) = a" by (cases n) (auto simp: hd_take)
  with lt show ?thesis by (simp add: hd_drop_conv_nth)
qed

lemma matches_NEW_PARAGRAPH_current:
  "matches NEW_PARAGRAPH s \<Longrightarrow> current s = Some CR \<or> current s = Some LF"
  by (auto simp: matches_def NEW_PARAGRAPH_def NEWLINE_def CR_def LF_def lookAhead_def
        getSlice_def current_def dest!: take_drop_Cons)

lemma matches_NEW_PARAGRAPH_NEWLINE: "matches NEW_PARAGRAPH s \<Longrightarrow> matches NEWLINE s"
  by (drule matches_NEW_PARAGRAPH_current)
     (auto simp: matches_def NEWLINE_def lookAhead_def CR_def LF_def)

lemma skipNewlines_progress:
  "matches NEW_PARAGRAPH s \<Longrightarrow> index s < index (skipNewlines s)"
proof -
  assume "matches NEW_PARAGRAPH s"
  then have c: "case current s of None \<Rightarrow> False | Some c \<Rightarrow> c \<in> set NEWLINE"
    by (auto dest!: matches_NEW_PARAGRAPH_current simp: NEWLINE_def)
  then have "skipNewlines s = skipNewlines (advance 1 s)"
    by (simp add: skipNewlines.simps [of s])
  with skipNewlines_facts [of "advance 1 s"] show ?thesis
    by (simp add: advance_def)
qed

lemma match_single_facts:
  "match [c] s = (r, s') \<Longrightarrow>
     chars s' = chars s \<and> index s \<le> index s' \<and> r \<noteq> Inl OtherError
     \<and> (r \<noteq> Inl MismatchError \<longrightarrow> index s' = index s + length c)"
  by (auto simp: advance_def split: if_splits)

lemma lit_nonempty [simp]: "(lit s = []) = (s = [])"
  by (simp add: lit_def)

lemma length_lit [simp]: "length (lit s) = length s"
  by (simp add: lit_def)

lemma lookAhead_1_length: "lookAhead 1 s = Some c \<Longrightarrow> length c = 1"
  by (auto simp: lookAhead_def current_def split: if_splits)

lemma parseCurrent_sound_step:
  assumes IH: "\<And>e s r s'. parseNext f e s = Some (r, s') \<Longrightarrow>
             chars s' = chars s \<and> index s \<le> index s' \<and> (\<exists>n. r = Inr n \<and> (e \<noteq> [] \<longrightarrow> para_free n))"
    and run: "parseCurrent (Suc f) s = Some (r, s')"
  shows "chars s' = chars s \<and> index s \<le> index s' \<and> r \<noteq> Inl OtherError
         \<and> (\<forall>n. r = Inr (Some n) \<longrightarrow> index s < index s' \<and> para_free n)"
  using run
  apply (simp only: parseCurrent.simps)
  apply (auto split: option.splits if_splits prod.splits sum.splits simp: Let_def
      dest!: IH match_single_facts parseText_facts lookAhead_1_length simp: advance_def)
  done

section \<open>Facts about the shape of the tree\<close>

lemma para_free_not_paragraph: "para_free n \<Longrightarrow> \<not> is_paragraph n"
  by (cases n) auto

lemma flat_last: "list_all para_free root \<Longrightarrow> root \<noteq> [] \<Longrightarrow> \<not> is_paragraph (last root)"
  by (metis last_in_set list_all_iff para_free_not_paragraph)

lemma push_children_flat:
  "list_all para_free root \<Longrightarrow> list_all para_free ns \<Longrightarrow> list_all para_free (push_children root ns)"
  by (auto simp: push_children_def dest: flat_last)

lemma grouped_butlast:
  "list_all P root \<Longrightarrow> list_all P (butlast root)"
  by (auto simp: list_all_iff dest: in_set_butlastD)

lemma is_paragraph_children: "is_paragraph n \<Longrightarrow> n = Paragraph (node_children n)"
  by (cases n) auto

lemma push_children_top_inv:
  "top_inv root \<Longrightarrow> list_all para_free ns \<Longrightarrow> top_inv (push_children root ns)"
  unfolding top_inv_def
proof (elim disjE conjE)
  assume "list_all para_free root" "list_all para_free ns"
  then show "list_all para_free (push_children root ns) \<or>
    push_children root ns \<noteq> [] \<and>
    list_all (\<lambda>c. is_paragraph c \<and> list_all para_free (node_children c)) (push_children root ns)"
    by (simp add: push_children_flat)
next
  let ?G = "\<lambda>c. is_paragraph c \<and> list_all para_free (node_children c)"
  assume ne: "root \<noteq> []" and g: "list_all ?G root" and ns: "list_all para_free ns"
  from ne g have l: "?G (last root)" by (auto simp: list_all_iff)
  with ne have "push_children root ns = butlast root @ [Paragraph (node_children (last root) @ ns)]"
    by (simp add: push_children_def)
  moreover have "list_all ?G (butlast root)" using g by (rule grouped_butlast)
  ultimately show "list_all para_free (push_children root ns) \<or>
    push_children root ns \<noteq> [] \<and> list_all ?G (push_children root ns)"
    using l ns by simp
qed

lemma promote_top_inv:
  "top_inv root \<Longrightarrow> promote root acc = (root', acc') \<Longrightarrow> top_inv root'"
  unfolding top_inv_def
proof (elim disjE conjE)
  let ?G = "\<lambda>c. is_paragraph c \<and> list_all para_free (node_children c)"
  assume f: "list_all para_free root" and p: "promote root acc = (root', acc')"
  have np: "\<not> (root \<noteq> [] \<and> is_paragraph (last root))" using f by (auto dest: flat_last)
  show "list_all para_free root' \<or> root' \<noteq> [] \<and> list_all ?G root'"
    using p f np by (auto simp: promote_def Let_def split: if_splits)
next
  let ?G = "\<lambda>c. is_paragraph c \<and> list_all para_free (node_children c)"
  assume ne: "root \<noteq> []" and g: "list_all ?G root" and p: "promote root acc = (root', acc')"
  from ne g have l: "?G (last root)" by (auto simp: list_all_iff)
  have b: "list_all ?G (butlast root)" using g by (rule grouped_butlast)
  have "root' \<noteq> [] \<and> list_all ?G root'"
    using p ne g l b by (auto simp: promote_def Let_def split: if_splits)
  then show "list_all para_free root' \<or> root' \<noteq> [] \<and> list_all ?G root'" ..
qed

lemma finish_flat: "list_all para_free root \<Longrightarrow> para_free (finish root acc)"
proof -
  assume f: "list_all para_free root"
  let ?r1 = "if acc \<noteq> [] then push_children root [Text acc] else root"
  have f1: "list_all para_free ?r1" using f by (simp add: push_children_flat)
  have nl: "\<not> (?r1 \<noteq> [] \<and> last ?r1 = Paragraph [])"
    using flat_last [OF f1] by auto
  have "finish root acc = (if length ?r1 = 1 then ?r1 ! 0 else Fragment ?r1)"
    using nl unfolding finish_def Let_def by presburger
  moreover have "length ?r1 = 1 \<Longrightarrow> para_free (?r1 ! 0)"
    using f1 unfolding list_all_length by simp
  ultimately show ?thesis using f1 by (auto simp del: One_nat_def)
qed

lemma para_free_child_ok: "para_free c \<Longrightarrow> para_child_ok c"
  by (cases c) auto

lemma para_child_ok_at_top: "para_child_ok n \<Longrightarrow> paragraphs_at_top n"
  by (cases n) (auto simp: paragraphs_at_top_def list_all_iff intro: para_free_child_ok)

lemma collapse_at_top:
  "list_all para_child_ok cs \<Longrightarrow> paragraphs_at_top (if length cs = 1 then cs ! 0 else Fragment cs)"
proof (cases "length cs = 1")
  case True
  assume "list_all para_child_ok cs"
  with True have "para_child_ok (cs ! 0)" unfolding list_all_length by simp
  with True show ?thesis by (simp add: para_child_ok_at_top del: One_nat_def)
next
  case False
  assume "list_all para_child_ok cs"
  with False show ?thesis by (simp add: paragraphs_at_top_def del: One_nat_def)
qed

lemma top_inv_child_ok: "top_inv root \<Longrightarrow> list_all para_child_ok root"
proof -
  have "\<And>c. is_paragraph c \<and> list_all para_free (node_children c) \<Longrightarrow> para_child_ok c"
    by (case_tac c) auto
  then show "top_inv root \<Longrightarrow> list_all para_child_ok root"
    unfolding top_inv_def list_all_iff using para_free_child_ok by blast
qed

lemma finish_top_inv: "top_inv root \<Longrightarrow> paragraphs_at_top (finish root acc)"
proof -
  assume t: "top_inv root"
  define r1 where "r1 = (if acc \<noteq> [] then push_children root [Text acc] else root)"
  define r2 where "r2 = (if r1 \<noteq> [] \<and> last r1 = Paragraph [] then butlast r1 else r1)"
  have "top_inv r1" using t by (simp add: r1_def push_children_top_inv)
  then have "list_all para_child_ok r1" by (rule top_inv_child_ok)
  then have ok: "list_all para_child_ok r2" by (auto simp: r2_def intro: grouped_butlast)
  have "finish root acc = (if length r2 = 1 then r2 ! 0 else Fragment r2)"
    unfolding finish_def Let_def r1_def r2_def ..
  with collapse_at_top [OF ok] show ?thesis by simp
qed

section \<open>What a run leaves behind\<close>

text \<open>
  Whatever the depth bound, a call that returns leaves the code points alone and never
  moves the cursor back, \<^verbatim>\<open>parseNext\<close> returns a node (it throws nothing), and a node that
  \<^verbatim>\<open>parseCurrent\<close> returns has no paragraph and has consumed input.
\<close>

lemma parseNext_loop_sound_step:
  assumes IHl: "\<And>e root acc s r s'. parseNext_loop f e root acc s = Some (r, s') \<Longrightarrow>
      chars s' = chars s \<and> index s \<le> index s'
      \<and> (\<exists>root' acc'. r = Inr (root', acc')
            \<and> (e \<noteq> [] \<longrightarrow> list_all para_free root \<longrightarrow> list_all para_free root')
            \<and> (top_inv root \<longrightarrow> top_inv root'))"
    and IHc: "\<And>s r s'. parseCurrent f s = Some (r, s') \<Longrightarrow>
      chars s' = chars s \<and> index s \<le> index s' \<and> r \<noteq> Inl OtherError
      \<and> (\<forall>n. r = Inr (Some n) \<longrightarrow> index s < index s' \<and> para_free n)"
    and run: "parseNext_loop (Suc f) e root acc s = Some (r, s')"
  shows "chars s' = chars s \<and> index s \<le> index s'
      \<and> (\<exists>root' acc'. r = Inr (root', acc')
            \<and> (e \<noteq> [] \<longrightarrow> list_all para_free root \<longrightarrow> list_all para_free root')
            \<and> (top_inv root \<longrightarrow> top_inv root'))"
proof (cases "is_done s")
  case True
  with run show ?thesis by auto
next
  case nd: False
  obtain esc s1 where pt: "parseText [] s = (esc, s1)" by (cases "parseText [] s")
  note ptf = parseText_facts [OF pt]
  show ?thesis
  proof (cases "esc \<noteq> []")
    case True
    with run nd pt have "parseNext_loop f e root (acc @ esc) s1 = Some (r, s')" by simp
    from IHl [OF this] ptf show ?thesis by simp
  next
    case False
    then have esc: "esc = []" and s1: "s1 = s" using ptf by auto
    show ?thesis
    proof (cases "e \<noteq> [] \<and> (matches [e] s \<or> matches NEWLINE s)")
      case True
      with run nd pt esc s1 show ?thesis by auto
    next
      case nostop: False
      show ?thesis
      proof (cases "matches NEW_PARAGRAPH s")
        case True
        with nostop have e: "e = []" by (auto dest: matches_NEW_PARAGRAPH_NEWLINE)
        obtain root1 acc1 where pr: "promote root acc = (root1, acc1)" by (cases "promote root acc")
        from run nd pt esc s1 True e pr
        have "parseNext_loop f e root1 acc1 (skipNewlines s) = Some (r, s')" by simp
        from IHl [OF this] skipNewlines_facts [of s] promote_top_inv [OF _ pr] e
        show ?thesis by auto
      next
        case nopara: False
        from run nd pt esc s1 nostop nopara obtain rc s2
          where pc: "parseCurrent f s = Some (rc, s2)"
          by (cases "parseCurrent f s") auto
        note cf = IHc [OF pc]
        show ?thesis
        proof (cases "\<exists>n. rc = Inr (Some n)")
          case True
          then obtain n where rc: "rc = Inr (Some n)" by blast
          let ?ns = "(if acc \<noteq> [] then [Text acc] else []) @ [n]"
          from run nd pt esc s1 nostop nopara pc rc
          have "parseNext_loop f e (push_children root ?ns) [] s2 = Some (r, s')" by simp
          moreover have ns: "list_all para_free ?ns" using cf rc by simp
          ultimately show ?thesis
            using IHl [of e "push_children root ?ns" "[]" s2 r s'] cf
              push_children_flat [OF _ ns] push_children_top_inv [OF _ ns]
            by auto
        next
          case False
          with cf have "rc = Inl MismatchError \<or> rc = Inr None"
            by (cases rc) (auto intro: error.exhaust)
          with run nd pt esc s1 nostop nopara pc
          have "parseNext_loop f e root (plus_current acc (seek (index s) s2))
                  (advance 1 (seek (index s) s2)) = Some (r, s')"
            by (auto simp: Let_def)
          from IHl [OF this] cf show ?thesis by (auto simp: advance_def seek_def)
        qed
      qed
    qed
  qed
qed

lemma parseNext_sound_step:
  assumes IHl: "\<And>e root acc s r s'. parseNext_loop f e root acc s = Some (r, s') \<Longrightarrow>
      chars s' = chars s \<and> index s \<le> index s'
      \<and> (\<exists>root' acc'. r = Inr (root', acc')
            \<and> (e \<noteq> [] \<longrightarrow> list_all para_free root \<longrightarrow> list_all para_free root')
            \<and> (top_inv root \<longrightarrow> top_inv root'))"
    and run: "parseNext (Suc f) e s = Some (r, s')"
  shows "chars s' = chars s \<and> index s \<le> index s'
      \<and> (\<exists>n. r = Inr n \<and> (e \<noteq> [] \<longrightarrow> para_free n) \<and> paragraphs_at_top n)"
proof -
  from run obtain rl where pl: "parseNext_loop f e [] [] s = Some (rl, s')"
    by (auto split: option.splits sum.splits prod.splits)
  from IHl [OF pl] obtain root' acc' where
    c: "chars s' = chars s" "index s \<le> index s'" and rl: "rl = Inr (root', acc')"
    and flat: "e \<noteq> [] \<longrightarrow> list_all para_free root'" and top: "top_inv root'"
    by (auto simp: top_inv_def)
  from run pl rl have "r = Inr (finish root' acc')" by simp
  with c flat top show ?thesis by (auto intro: finish_flat finish_top_inv)
qed

lemma parse_sound:
  "(\<forall>e root acc s r s'. parseNext_loop f e root acc s = Some (r, s') \<longrightarrow>
      chars s' = chars s \<and> index s \<le> index s'
      \<and> (\<exists>root' acc'. r = Inr (root', acc')
            \<and> (e \<noteq> [] \<longrightarrow> list_all para_free root \<longrightarrow> list_all para_free root')
            \<and> (top_inv root \<longrightarrow> top_inv root')))
   \<and> (\<forall>e s r s'. parseNext f e s = Some (r, s') \<longrightarrow>
      chars s' = chars s \<and> index s \<le> index s'
      \<and> (\<exists>n. r = Inr n \<and> (e \<noteq> [] \<longrightarrow> para_free n) \<and> paragraphs_at_top n))
   \<and> (\<forall>s r s'. parseCurrent f s = Some (r, s') \<longrightarrow>
      chars s' = chars s \<and> index s \<le> index s' \<and> r \<noteq> Inl OtherError
      \<and> (\<forall>n. r = Inr (Some n) \<longrightarrow> index s < index s' \<and> para_free n))"
proof (induction f)
  case 0
  show ?case by simp
next
  case (Suc f)
  then have IHl: "\<And>e root acc s r s'. parseNext_loop f e root acc s = Some (r, s') \<Longrightarrow>
      chars s' = chars s \<and> index s \<le> index s'
      \<and> (\<exists>root' acc'. r = Inr (root', acc')
            \<and> (e \<noteq> [] \<longrightarrow> list_all para_free root \<longrightarrow> list_all para_free root')
            \<and> (top_inv root \<longrightarrow> top_inv root'))"
    and IHn: "\<And>e s r s'. parseNext f e s = Some (r, s') \<Longrightarrow>
      chars s' = chars s \<and> index s \<le> index s'
      \<and> (\<exists>n. r = Inr n \<and> (e \<noteq> [] \<longrightarrow> para_free n))"
    and IHc: "\<And>s r s'. parseCurrent f s = Some (r, s') \<Longrightarrow>
      chars s' = chars s \<and> index s \<le> index s' \<and> r \<noteq> Inl OtherError
      \<and> (\<forall>n. r = Inr (Some n) \<longrightarrow> index s < index s' \<and> para_free n)"
    by blast+
  have A: "chars s' = chars s \<and> index s \<le> index s'
      \<and> (\<exists>root' acc'. r = Inr (root', acc')
            \<and> (e \<noteq> [] \<longrightarrow> list_all para_free root \<longrightarrow> list_all para_free root')
            \<and> (top_inv root \<longrightarrow> top_inv root'))"
    if "parseNext_loop (Suc f) e root acc s = Some (r, s')" for e root acc s r s'
    by (rule parseNext_loop_sound_step [where f = f]) (erule IHl, erule IHc, rule that)
  have B: "chars s' = chars s \<and> index s \<le> index s'
      \<and> (\<exists>n. r = Inr n \<and> (e \<noteq> [] \<longrightarrow> para_free n) \<and> paragraphs_at_top n)"
    if "parseNext (Suc f) e s = Some (r, s')" for e s r s'
    by (rule parseNext_sound_step [where f = f]) (erule IHl, rule that)
  have C: "chars s' = chars s \<and> index s \<le> index s' \<and> r \<noteq> Inl OtherError
      \<and> (\<forall>n. r = Inr (Some n) \<longrightarrow> index s < index s' \<and> para_free n)"
    if "parseCurrent (Suc f) s = Some (r, s')" for s r s'
    by (rule parseCurrent_sound_step [where f = f]) (erule IHn, rule that)
  from A B C show ?case by blast
qed

section \<open>The equations of the recursive functions, case by case\<close>

lemma lit_eq_iff [simp]: "(lit a = lit b) = (a = b)"
  by (simp add: lit_def inj_map_eq_map [OF inj_of_char])

lemma parseCurrent_emphasis:
  "lookAhead 1 s = Some char \<Longrightarrow> char = lit ''*'' \<or> char = lit ''_'' \<Longrightarrow>
   parseCurrent (Suc f) s
     = map_option (close_emphasis (emphasis_delimiter s char))
         (parseNext f (emphasis_delimiter s char)
            (advance (length (emphasis_delimiter s char)) s))"
  by (cases "parseNext f (emphasis_delimiter s char)
               (advance (length (emphasis_delimiter s char)) s)")
     (auto simp: close_emphasis_def emphasis_delimiter_def Let_def
        split: sum.splits prod.splits simp del: parseNext.simps)


lemma parseCurrent_strike:
  "lookAhead 1 s = Some (lit ''~'') \<Longrightarrow>
   parseCurrent (Suc f) s
     = (case match [lit ''~~''] s of
          (Inl e, s1) \<Rightarrow> Some (Inl e, s1)
        | (Inr u, s1) \<Rightarrow> map_option close_strike (parseNext f (lit ''~~'') s1))"
proof (cases "lookAhead (length (lit ''~~'')) s = Some (lit ''~~'')")
  case True
  assume "lookAhead 1 s = Some (lit ''~'')"
  with True show ?thesis
    by (cases "parseNext f (lit ''~~'') (advance (length (lit ''~~'')) s)")
       (auto simp: close_strike_def split: sum.splits prod.splits simp del: parseNext.simps)
next
  case False
  assume "lookAhead 1 s = Some (lit ''~'')"
  with False show ?thesis by simp
qed

lemma parseCurrent_link:
  "lookAhead 1 s = Some (lit ''['') \<Longrightarrow>
   parseCurrent (Suc f) s = map_option close_link (parseNext f (lit '']'') (advance 1 s))"
  by (cases "parseNext f (lit '']'') (advance 1 s)")
     (auto simp: close_link_def split: sum.splits prod.splits simp del: parseNext.simps)

lemma parseCurrent_undefined:
  "lookAhead 1 s = None \<Longrightarrow> parseCurrent (Suc f) s = Some (Inr None, s)"
  by simp

lemma parseCurrent_no_call:
  "lookAhead 1 s = Some char \<Longrightarrow>
   char \<noteq> lit ''*'' \<Longrightarrow> char \<noteq> lit ''_'' \<Longrightarrow> char \<noteq> lit ''~'' \<Longrightarrow> char \<noteq> lit ''['' \<Longrightarrow>
   parseCurrent (Suc f) s = parseCurrent (Suc 0) s"
  by simp

lemma loop_done:
  "is_done s \<Longrightarrow> parseNext_loop (Suc f) e root acc s = Some (Inr (root, acc), s)"
  by simp

lemma loop_escape:
  "\<not> is_done s \<Longrightarrow> parseText [] s = (esc, s1) \<Longrightarrow> esc \<noteq> [] \<Longrightarrow>
   parseNext_loop (Suc f) e root acc s = parseNext_loop f e root (acc @ esc) s1"
  by simp

lemma loop_stop:
  "\<not> is_done s \<Longrightarrow> parseText [] s = ([], s) \<Longrightarrow>
   e \<noteq> [] \<and> (matches [e] s \<or> matches NEWLINE s) \<Longrightarrow>
   parseNext_loop (Suc f) e root acc s = Some (Inr (root, acc), s)"
  by simp

lemma loop_paragraph:
  "\<not> is_done s \<Longrightarrow> parseText [] s = ([], s) \<Longrightarrow>
   \<not> (e \<noteq> [] \<and> (matches [e] s \<or> matches NEWLINE s)) \<Longrightarrow> matches NEW_PARAGRAPH s \<Longrightarrow>
   parseNext_loop (Suc f) e root acc s
     = parseNext_loop f e (fst (promote root acc)) (snd (promote root acc)) (skipNewlines s)"
  by (auto simp: case_prod_beta)

lemma loop_out_of_fuel:
  "\<not> is_done s \<Longrightarrow> parseText [] s = ([], s) \<Longrightarrow>
   \<not> (e \<noteq> [] \<and> (matches [e] s \<or> matches NEWLINE s)) \<Longrightarrow> \<not> matches NEW_PARAGRAPH s \<Longrightarrow>
   parseCurrent f s = None \<Longrightarrow>
   parseNext_loop (Suc f) e root acc s = None"
  by simp

lemma loop_rethrow:
  "\<not> is_done s \<Longrightarrow> parseText [] s = ([], s) \<Longrightarrow>
   \<not> (e \<noteq> [] \<and> (matches [e] s \<or> matches NEWLINE s)) \<Longrightarrow> \<not> matches NEW_PARAGRAPH s \<Longrightarrow>
   parseCurrent f s = Some (Inl OtherError, s2) \<Longrightarrow>
   parseNext_loop (Suc f) e root acc s = Some (Inl OtherError, s2)"
  by simp

lemma loop_literal:
  "\<not> is_done s \<Longrightarrow> parseText [] s = ([], s) \<Longrightarrow>
   \<not> (e \<noteq> [] \<and> (matches [e] s \<or> matches NEWLINE s)) \<Longrightarrow> \<not> matches NEW_PARAGRAPH s \<Longrightarrow>
   parseCurrent f s = Some (rc, s2) \<Longrightarrow> rc = Inl MismatchError \<or> rc = Inr None \<Longrightarrow>
   parseNext_loop (Suc f) e root acc s
     = parseNext_loop f e root (plus_current acc (seek (index s) s2))
         (advance 1 (seek (index s) s2))"
  by (auto simp: Let_def)

lemma loop_node:
  "\<not> is_done s \<Longrightarrow> parseText [] s = ([], s) \<Longrightarrow>
   \<not> (e \<noteq> [] \<and> (matches [e] s \<or> matches NEWLINE s)) \<Longrightarrow> \<not> matches NEW_PARAGRAPH s \<Longrightarrow>
   parseCurrent f s = Some (Inr (Some n), s2) \<Longrightarrow>
   parseNext_loop (Suc f) e root acc s
     = parseNext_loop f e
         (push_children root ((if acc \<noteq> [] then [Text acc] else []) @ [n])) [] s2"
  by auto

text \<open>From here on the equations at a successor bound are applied by name only.\<close>

declare parseNext_loop.simps(2) [simp del] parseNext.simps(2) [simp del]
  parseCurrent.simps(2) [simp del]

section \<open>The cursor's \<^verbatim>\<open>match\<close>\<close>

lemma lookAhead_literal: "(lookAhead (length c) s = Some c) = literal_at c s"
proof (cases "length c = 1")
  case True
  then obtain a where c: "c = [a]" by (cases c) auto
  show ?thesis
  proof (cases "index s < length (chars s)")
    case True
    then have "drop (index s) (chars s) = chars s ! index s # drop (Suc (index s)) (chars s)"
      by (simp add: Cons_nth_drop_Suc)
    with True c show ?thesis by (auto simp: lookAhead_def current_def literal_at_def)
  next
    case False
    with c show ?thesis by (simp add: lookAhead_def current_def literal_at_def)
  qed
next
  case False
  then show ?thesis by (auto simp: lookAhead_def getSlice_def literal_at_def)
qed

lemma match_find:
  "match cands s = (case find (\<lambda>c. literal_at c s) cands of
                      None \<Rightarrow> (Inl MismatchError, s)
                    | Some c \<Rightarrow> (Inr (), advance (length c) s))"
  by (induction cands) (simp_all add: lookAhead_literal)

lemma find_SomeD: "find P xs = Some x \<Longrightarrow> x \<in> set xs \<and> P x"
  by (induction xs) (auto split: if_splits)


section \<open>Runs on concrete inputs\<close>

text \<open>
  The simplifier runs the model: the equations of the three recursive functions at a numeral
  bound, and the definitions of the helpers.
\<close>

lemmas parseNext_loop_numeral =
  parseNext_loop.simps(2) [of "pred_numeral k", folded numeral_eq_Suc] for k
lemmas parseNext_numeral =
  parseNext.simps(2) [of "pred_numeral k", folded numeral_eq_Suc] for k
lemmas parseCurrent_numeral =
  parseCurrent.simps(2) [of "pred_numeral k", folded numeral_eq_Suc] for k

lemmas eval_simps =
  parse_def parse_fuel_def new_parser_def lit_def CR_def LF_def BACKSLASH_def NEWLINE_def
  NEW_PARAGRAPH_def is_done_def current_def plus_current_def advance_def seek_def
  getSlice_def lookAhead_def matches_def parseText_def parseText_loop.simps
  skipNewlines.simps push_children_def promote_def finish_def trim_def js_whitespace_def
  Let_def parseNext_loop_numeral parseNext_numeral parseCurrent_numeral
  parseNext_loop.simps(2) parseNext.simps(2) parseCurrent.simps(2)

lemma parse_mismatched_emphasis:
  "parse (lit ''*a**'') = Some (Inr (Fragment [Italic (Text (lit ''a'')), Text (lit ''*'')]))"
  by (simp add: eval_simps)

lemma parse_blank_line_pairs:
  "list_all (\<lambda>n1. list_all (\<lambda>n2.
      parse (lit ''a'' @ n1 @ n2 @ lit ''b'')
        = Some (Inr (Fragment [Paragraph [Text (lit ''a'')], Paragraph [Text (lit ''b'')]])))
     NEWLINE) NEWLINE"
  by (simp add: eval_simps)

lemma parse_hello: "parse (lit ''hello'') = Some (Inr (Text (lit ''hello'')))"
  by (simp add: eval_simps)

lemma parse_empty: "parse [] = Some (Inr (Fragment []))"
  by (simp add: eval_simps)


lemma parse_triple_backticks:
  "parse (lit ''```a```'') = Some (Inr (Text (lit ''```a```'')))"
  by (simp add: eval_simps)

lemma parse_single_newline:
  "parse (lit ''a'' @ LF @ lit ''b'') = Some (Inr (Text (lit ''a'' @ LF @ lit ''b'')))"
  by (simp add: eval_simps)

lemma parse_trailing_blank_line:
  "parse (lit ''a'' @ LF @ LF) = Some (Inr (Paragraph [Text (lit ''a'')]))"
  by (simp add: eval_simps)

lemma parseNext_label_blank_line:
  "parseNext 20 (lit '']'') \<lparr>chars = lit ''[a'' @ LF @ LF @ lit ''b](c)'', index = 1\<rparr>
     = Some (Inr (Text (lit ''a'')), \<lparr>chars = lit ''[a'' @ LF @ LF @ lit ''b](c)'', index = 2\<rparr>)"
  by (simp add: eval_simps)

lemma parse_link_blank_line:
  "parse (lit ''[a'' @ LF @ LF @ lit ''b](c)'')
     = Some (Inr (Fragment [Paragraph [Text (lit ''[a'')], Paragraph [Text (lit ''b](c)'')]]))"
  by (simp add: eval_simps)

section \<open>A larger depth bound gives the same result\<close>

lemma parseCurrent_mono_step:
  assumes IH: "\<And>e s. parseNext f e s \<noteq> None \<Longrightarrow> parseNext (Suc f) e s = parseNext f e s"
    and run: "parseCurrent (Suc f) s \<noteq> None"
  shows "parseCurrent (Suc (Suc f)) s = parseCurrent (Suc f) s"
proof (cases "lookAhead 1 s")
  case None
  then show ?thesis by (simp only: parseCurrent_undefined)
next
  case (Some char)
  consider (emphasis) "char = lit ''*'' \<or> char = lit ''_''"
    | (strike) "char = lit ''~''"
    | (link) "char = lit ''[''"
    | (other) "char \<noteq> lit ''*''" "char \<noteq> lit ''_''" "char \<noteq> lit ''~''" "char \<noteq> lit ''[''"
    by blast
  then show ?thesis
  proof cases
    case emphasis
    note eq = parseCurrent_emphasis [OF Some emphasis]
    from run have "parseNext f (emphasis_delimiter s char)
        (advance (length (emphasis_delimiter s char)) s) \<noteq> None"
      by (simp only: eq [of f]) auto
    from IH [OF this] show ?thesis by (simp only: eq)
  next
    case strike
    note eq = parseCurrent_strike [OF Some [unfolded strike]]
    obtain r s1 where m: "match [lit ''~~''] s = (r, s1)" by (cases "match [lit ''~~''] s")
    show ?thesis
    proof (cases r)
      case (Inl e)
      with m show ?thesis by (simp only: eq) simp
    next
      case (Inr u)
      with run m have "parseNext f (lit ''~~'') s1 \<noteq> None"
        by (simp only: eq [of f]) auto
      from IH [OF this] m Inr show ?thesis by (simp only: eq) simp
    qed
  next
    case link
    note eq = parseCurrent_link [OF Some [unfolded link]]
    from run have "parseNext f (lit '']'') (advance 1 s) \<noteq> None"
      by (simp only: eq [of f]) auto
    from IH [OF this] show ?thesis by (simp only: eq)
  next
    case other
    note eq = parseCurrent_no_call [OF Some other]
    show ?thesis by (rule trans [OF eq [of "Suc f"] eq [of f, symmetric]])
  qed
qed

lemma parseNext_mono_step:
  assumes IH: "\<And>e root acc s. parseNext_loop f e root acc s \<noteq> None \<Longrightarrow>
                 parseNext_loop (Suc f) e root acc s = parseNext_loop f e root acc s"
    and run: "parseNext (Suc f) e s \<noteq> None"
  shows "parseNext (Suc (Suc f)) e s = parseNext (Suc f) e s"
proof -
  from run have "parseNext_loop f e [] [] s \<noteq> None"
    by (cases "parseNext_loop f e [] [] s") (auto simp: parseNext.simps)
  from IH [OF this] show ?thesis by (simp only: parseNext.simps)
qed

lemma parseNext_loop_mono_step:
  assumes IHl: "\<And>e root acc s. parseNext_loop f e root acc s \<noteq> None \<Longrightarrow>
                 parseNext_loop (Suc f) e root acc s = parseNext_loop f e root acc s"
    and IHc: "\<And>s. parseCurrent f s \<noteq> None \<Longrightarrow> parseCurrent (Suc f) s = parseCurrent f s"
    and run: "parseNext_loop (Suc f) e root acc s \<noteq> None"
  shows "parseNext_loop (Suc (Suc f)) e root acc s = parseNext_loop (Suc f) e root acc s"
proof (cases "is_done s")
  case True
  then show ?thesis by (simp only: loop_done)
next
  case nd: False
  obtain esc s1 where pt: "parseText [] s = (esc, s1)" by (cases "parseText [] s")
  show ?thesis
  proof (cases "esc \<noteq> []")
    case True
    note eq = loop_escape [OF nd pt True]
    from run have "parseNext_loop f e root (acc @ esc) s1 \<noteq> None" unfolding eq .
    from IHl [OF this] show ?thesis by (simp only: eq)
  next
    case False
    with parseText_facts [OF pt] pt have pt0: "parseText [] s = ([], s)" by simp
    show ?thesis
    proof (cases "e \<noteq> [] \<and> (matches [e] s \<or> matches NEWLINE s)")
      case True
      then show ?thesis by (simp only: loop_stop [OF nd pt0 True])
    next
      case nostop: False
      show ?thesis
      proof (cases "matches NEW_PARAGRAPH s")
        case True
        note eq = loop_paragraph [OF nd pt0 nostop True]
        from run have "parseNext_loop f e (fst (promote root acc)) (snd (promote root acc))
            (skipNewlines s) \<noteq> None" unfolding eq .
        from IHl [OF this] show ?thesis by (simp only: eq)
      next
        case nopara: False
        have "parseCurrent f s \<noteq> None"
        proof
          assume "parseCurrent f s = None"
          then have "parseNext_loop (Suc f) e root acc s = None"
            by (rule loop_out_of_fuel [OF nd pt0 nostop nopara])
          with run show False by (rule notE)
        qed
        then obtain rc s2 where pc: "parseCurrent f s = Some (rc, s2)" by auto
        with IHc [of s] have pc': "parseCurrent (Suc f) s = Some (rc, s2)" by simp
        consider (rethrow) "rc = Inl OtherError"
          | (literal) "rc = Inl MismatchError \<or> rc = Inr None"
          | (node) n where "rc = Inr (Some n)"
          by (cases rc) (auto intro: error.exhaust)
        then show ?thesis
        proof cases
          case rethrow
          with pc pc' show ?thesis by (simp only: loop_rethrow [OF nd pt0 nostop nopara])
        next
          case literal
          note eq = loop_literal [OF nd pt0 nostop nopara _ literal]
          from run have "parseNext_loop f e root (plus_current acc (seek (index s) s2))
              (advance 1 (seek (index s) s2)) \<noteq> None" unfolding eq [OF pc] .
          from IHl [OF this] show ?thesis by (simp only: eq [OF pc] eq [OF pc'])
        next
          case node
          note eq = loop_node [OF nd pt0 nostop nopara]
          from run have "parseNext_loop f e
              (push_children root ((if acc \<noteq> [] then [Text acc] else []) @ [n])) [] s2 \<noteq> None"
            unfolding eq [OF pc [unfolded node]] .
          from IHl [OF this] show ?thesis
            by (simp only: eq [OF pc [unfolded node]] eq [OF pc' [unfolded node]])
        qed
      qed
    qed
  qed
qed

lemma fuel_mono_Suc:
  "(\<forall>e root acc s. parseNext_loop f e root acc s \<noteq> None \<longrightarrow>
      parseNext_loop (Suc f) e root acc s = parseNext_loop f e root acc s)
   \<and> (\<forall>e s. parseNext f e s \<noteq> None \<longrightarrow> parseNext (Suc f) e s = parseNext f e s)
   \<and> (\<forall>s. parseCurrent f s \<noteq> None \<longrightarrow> parseCurrent (Suc f) s = parseCurrent f s)"
proof (induction f)
  case 0
  show ?case by simp
next
  case (Suc f)
  then have IHl: "\<And>e root acc s. parseNext_loop f e root acc s \<noteq> None \<Longrightarrow>
      parseNext_loop (Suc f) e root acc s = parseNext_loop f e root acc s"
    and IHn: "\<And>e s. parseNext f e s \<noteq> None \<Longrightarrow> parseNext (Suc f) e s = parseNext f e s"
    and IHc: "\<And>s. parseCurrent f s \<noteq> None \<Longrightarrow> parseCurrent (Suc f) s = parseCurrent f s"
    by blast+
  have A: "parseNext_loop (Suc (Suc f)) e root acc s = parseNext_loop (Suc f) e root acc s"
    if "parseNext_loop (Suc f) e root acc s \<noteq> None" for e root acc s
    by (rule parseNext_loop_mono_step [where f = f]) (erule IHl, erule IHc, rule that)
  have B: "parseNext (Suc (Suc f)) e s = parseNext (Suc f) e s"
    if "parseNext (Suc f) e s \<noteq> None" for e s
    by (rule parseNext_mono_step [where f = f]) (erule IHl, rule that)
  have C: "parseCurrent (Suc (Suc f)) s = parseCurrent (Suc f) s"
    if "parseCurrent (Suc f) s \<noteq> None" for s
    by (rule parseCurrent_mono_step [where f = f]) (erule IHn, rule that)
  from A B C show ?case by blast
qed

lemma parseNext_fuel_mono: "parseNext f e s \<noteq> None \<Longrightarrow> parseNext (f + k) e s = parseNext f e s"
proof (induction k)
  case 0
  show ?case by simp
next
  case (Suc k)
  then have "parseNext (f + k) e s \<noteq> None" by simp
  with fuel_mono_Suc [of "f + k"] have "parseNext (Suc (f + k)) e s = parseNext (f + k) e s"
    by blast
  with Suc show ?case by simp
qed

section \<open>The depth bound that is enough\<close>

lemma Nil_eq_lit [simp]: "([] = lit s) = (s = [])"
  by (simp add: lit_def)

lemma lookAhead_1_in_range: "lookAhead 1 s = Some c \<Longrightarrow> index s < length (chars s)"
  by (auto simp: lookAhead_def current_def split: if_splits)

lemma parseCurrent_no_call_defined:
  "lookAhead 1 s = Some char \<Longrightarrow>
   char \<noteq> lit ''*'' \<Longrightarrow> char \<noteq> lit ''_'' \<Longrightarrow> char \<noteq> lit ''~'' \<Longrightarrow> char \<noteq> lit ''['' \<Longrightarrow>
   parseCurrent (Suc f) s \<noteq> None"
  by (auto simp: parseCurrent.simps Let_def split: prod.splits sum.splits)

lemma parseCurrent_fuel_step:
  assumes IH: "\<And>e s. 3 * (length (chars s) - index s) + 2 \<le> f \<Longrightarrow> parseNext f e s \<noteq> None"
    and bound: "3 * (length (chars s) - index s) \<le> Suc f"
  shows "parseCurrent (Suc f) s \<noteq> None"
proof (cases "lookAhead 1 s")
  case None
  then show ?thesis by (simp only: parseCurrent_undefined) simp
next
  case (Some char)
  note rng = lookAhead_1_in_range [OF Some]
  consider (emphasis) "char = lit ''*'' \<or> char = lit ''_''"
    | (strike) "char = lit ''~''"
    | (link) "char = lit ''[''"
    | (other) "char \<noteq> lit ''*''" "char \<noteq> lit ''_''" "char \<noteq> lit ''~''" "char \<noteq> lit ''[''"
    by blast
  then show ?thesis
  proof cases
    case emphasis
    let ?d = "emphasis_delimiter s char"
    have "0 < length ?d"
      using emphasis by (cases "matches [lit ''**''] s") (auto simp: emphasis_delimiter_def)
    then obtain n where "length ?d = Suc n" by (cases "length ?d") auto
    with rng bound
    have "3 * (length (chars (advance (length ?d) s)) - index (advance (length ?d) s)) + 2 \<le> f"
      by (simp add: advance_def)
    from IH [OF this] show ?thesis
      by (simp only: parseCurrent_emphasis [OF Some emphasis]) simp
  next
    case strike
    note eq = parseCurrent_strike [OF Some [unfolded strike]]
    obtain r s1 where m: "match [lit ''~~''] s = (r, s1)" by (cases "match [lit ''~~''] s")
    show ?thesis
    proof (cases r)
      case (Inl e)
      with m show ?thesis by (simp only: eq) simp
    next
      case (Inr u)
      with m have "chars s1 = chars s" "index s1 = index s + 2"
        by (auto simp: advance_def split: if_splits)
      with rng bound have "3 * (length (chars s1) - index s1) + 2 \<le> f" by simp
      from IH [OF this] m Inr show ?thesis by (simp only: eq) simp
    qed
  next
    case link
    from rng bound have "3 * (length (chars (advance 1 s)) - index (advance 1 s)) + 2 \<le> f"
      by (simp add: advance_def)
    from IH [OF this] show ?thesis
      by (simp only: parseCurrent_link [OF Some [unfolded link]]) simp
  next
    case other
    from Some other show ?thesis by (rule parseCurrent_no_call_defined)
  qed
qed

lemma parseNext_loop_fuel_step:
  assumes IHl: "\<And>e root acc s. 3 * (length (chars s) - index s) + 1 \<le> f \<Longrightarrow>
                 parseNext_loop f e root acc s \<noteq> None"
    and IHc: "\<And>s. 3 * (length (chars s) - index s) \<le> f \<Longrightarrow> 0 < f \<Longrightarrow> parseCurrent f s \<noteq> None"
    and bound: "3 * (length (chars s) - index s) + 1 \<le> Suc f"
  shows "parseNext_loop (Suc f) e root acc s \<noteq> None"
proof (cases "is_done s")
  case True
  then show ?thesis by (simp only: loop_done) simp
next
  case nd: False
  then have rng: "index s < length (chars s)" by (simp add: is_done_def)
  obtain esc s1 where pt: "parseText [] s = (esc, s1)" by (cases "parseText [] s")
  show ?thesis
  proof (cases "esc \<noteq> []")
    case True
    with parseText_facts [OF pt] have "chars s1 = chars s" "index s < index s1" by auto
    with rng bound have b: "3 * (length (chars s1) - index s1) + 1 \<le> f" by simp
    show ?thesis unfolding loop_escape [OF nd pt True] by (rule IHl [OF b])
  next
    case False
    with parseText_facts [OF pt] pt have pt0: "parseText [] s = ([], s)" by simp
    show ?thesis
    proof (cases "e \<noteq> [] \<and> (matches [e] s \<or> matches NEWLINE s)")
      case True
      then show ?thesis by (simp only: loop_stop [OF nd pt0 True]) simp
    next
      case nostop: False
      show ?thesis
      proof (cases "matches NEW_PARAGRAPH s")
        case True
        from skipNewlines_facts [of s] skipNewlines_progress [OF True] rng bound
        have b: "3 * (length (chars (skipNewlines s)) - index (skipNewlines s)) + 1 \<le> f" by simp
        show ?thesis unfolding loop_paragraph [OF nd pt0 nostop True] by (rule IHl [OF b])
      next
        case nopara: False
        from rng bound have "3 * (length (chars s) - index s) \<le> f" "0 < f" by simp_all
        then have "parseCurrent f s \<noteq> None" by (rule IHc)
        then obtain rc s2 where pc: "parseCurrent f s = Some (rc, s2)" by auto
        from parse_sound [of f] pc have snd:
          "chars s2 = chars s" "rc \<noteq> Inl OtherError \<or> True"
          "\<And>n. rc = Inr (Some n) \<Longrightarrow> index s < index s2"
          by blast+
        consider (rethrow) "rc = Inl OtherError"
          | (literal) "rc = Inl MismatchError \<or> rc = Inr None"
          | (node) n where "rc = Inr (Some n)"
          by (cases rc) (auto intro: error.exhaust)
        then show ?thesis
        proof cases
          case rethrow
          with pc show ?thesis by (simp only: loop_rethrow [OF nd pt0 nostop nopara]) simp
        next
          case literal
          from snd(1) rng bound
          have b: "3 * (length (chars (advance 1 (seek (index s) s2)))
                 - index (advance 1 (seek (index s) s2))) + 1 \<le> f"
            by (simp add: advance_def seek_def)
          show ?thesis unfolding loop_literal [OF nd pt0 nostop nopara pc literal]
            by (rule IHl [OF b])
        next
          case node
          from snd(1) snd(3) [OF node] rng bound
          have b: "3 * (length (chars s2) - index s2) + 1 \<le> f" by simp
          show ?thesis unfolding loop_node [OF nd pt0 nostop nopara pc [unfolded node]]
            by (rule IHl [OF b])
        qed
      qed
    qed
  qed
qed

lemma enough_fuel:
  "(\<forall>e root acc s. 3 * (length (chars s) - index s) + 1 \<le> f \<longrightarrow>
      parseNext_loop f e root acc s \<noteq> None)
   \<and> (\<forall>e s. 3 * (length (chars s) - index s) + 2 \<le> f \<longrightarrow> parseNext f e s \<noteq> None)
   \<and> (\<forall>s. 3 * (length (chars s) - index s) \<le> f \<and> 0 < f \<longrightarrow> parseCurrent f s \<noteq> None)"
proof (induction f)
  case 0
  show ?case by simp
next
  case (Suc f)
  then have IHl: "\<And>e root acc s. 3 * (length (chars s) - index s) + 1 \<le> f \<Longrightarrow>
      parseNext_loop f e root acc s \<noteq> None"
    and IHn: "\<And>e s. 3 * (length (chars s) - index s) + 2 \<le> f \<Longrightarrow> parseNext f e s \<noteq> None"
    and IHc: "\<And>s. 3 * (length (chars s) - index s) \<le> f \<Longrightarrow> 0 < f \<Longrightarrow> parseCurrent f s \<noteq> None"
    by blast+
  have A: "parseNext_loop (Suc f) e root acc s \<noteq> None"
    if "3 * (length (chars s) - index s) + 1 \<le> Suc f" for e root acc s
    by (rule parseNext_loop_fuel_step [where f = f]) (erule IHl, erule IHc, assumption, rule that)
  have B: "parseNext (Suc f) e s \<noteq> None"
    if "3 * (length (chars s) - index s) + 2 \<le> Suc f" for e s
  proof -
    from that have "3 * (length (chars s) - index s) + 1 \<le> f" by simp
    from IHl [OF this, of e "[]" "[]"] show ?thesis
      by (cases "parseNext_loop f e [] [] s") (auto simp: parseNext.simps split: sum.splits)
  qed
  have C: "parseCurrent (Suc f) s \<noteq> None"
    if "3 * (length (chars s) - index s) \<le> Suc f" for s
    by (rule parseCurrent_fuel_step [where f = f]) (erule IHn, rule that)
  from A B C show ?case by blast
qed

section \<open>Lemmas for the claims\<close>

lemma parse_result:
  "\<exists>n s'. parseNext (3 * length input + 2) [] (new_parser input) = Some (Inr n, s')
     \<and> paragraphs_at_top n"
proof -
  have "3 * (length (chars (new_parser input)) - index (new_parser input)) + 2
          \<le> 3 * length input + 2"
    by (simp add: new_parser_def)
  with enough_fuel [of "3 * length input + 2"]
  have "parseNext (3 * length input + 2) [] (new_parser input) \<noteq> None" by blast
  then obtain r s' where
    run: "parseNext (3 * length input + 2) [] (new_parser input) = Some (r, s')" by auto
  with parse_sound [of "3 * length input + 2"] show ?thesis by blast
qed

lemma parse_fuel_more:
  "parse_fuel (3 * length input + 2 + k) input = parse input"
proof -
  from parse_result [of input]
  have "parseNext (3 * length input + 2) [] (new_parser input) \<noteq> None" by auto
  from parseNext_fuel_mono [OF this, of k] show ?thesis by (simp add: parse_def parse_fuel_def)
qed

lemma nested_no_paragraph:
  "e \<noteq> [] \<Longrightarrow> parseNext f e s = Some (r, s') \<Longrightarrow> \<exists>n. r = Inr n \<and> para_free n"
  using parse_sound [of f] by blast

lemma matches_NEWLINE_current:
  "matches NEWLINE s \<Longrightarrow> current s = Some CR \<or> current s = Some LF"
  by (auto simp: matches_def NEWLINE_def CR_def LF_def lookAhead_def getSlice_def current_def
        dest!: take_drop_Cons split: if_splits)

lemma parseText_empty_at_newline:
  "current s = Some CR \<or> current s = Some LF \<Longrightarrow> parseText [] s = ([], s)"
  unfolding parseText_def
  by (rule parseText_loop_stop)
     (auto simp: is_done_def current_def CR_def LF_def BACKSLASH_def split: if_splits)

lemma nested_stops_at_newline:
  assumes "e \<noteq> []" and "matches NEWLINE s"
  shows "parseNext_loop (Suc f) e root acc s = Some (Inr (root, acc), s)"
proof -
  from assms(2) have c: "current s = Some CR \<or> current s = Some LF"
    by (rule matches_NEWLINE_current)
  then have nd: "\<not> is_done s" by (auto simp: is_done_def current_def split: if_splits)
  from assms show ?thesis
    by (intro loop_stop [OF nd parseText_empty_at_newline [OF c]]) simp
qed

lemma flush_text_eq:
  "flush_text root acc = (if acc \<noteq> [] then push_children root [Text acc] else root)"
proof (cases root rule: rev_cases)
  case Nil
  then show ?thesis by (simp add: flush_text_def push_children_def)
next
  case (snoc ys y)
  then show ?thesis by (cases y) (simp_all add: flush_text_def push_children_def)
qed

lemma without_trailing_empty_paragraph_eq:
  "without_trailing_empty_paragraph root
     = (if root \<noteq> [] \<and> last root = Paragraph [] then butlast root else root)"
proof (cases root rule: rev_cases)
  case Nil
  then show ?thesis by (simp add: without_trailing_empty_paragraph_def)
next
  case (snoc ys y)
  then show ?thesis
    by (cases y) (auto simp: without_trailing_empty_paragraph_def split: list.splits)
qed

lemma collapse_eq: "collapse root = (if length root = 1 then root ! 0 else Fragment root)"
  by (cases root) (auto simp: collapse_def split: list.splits)

lemma finish_collapse:
  "finish root acc = collapse (without_trailing_empty_paragraph (flush_text root acc))"
  unfolding finish_def Let_def collapse_eq without_trailing_empty_paragraph_eq flush_text_eq ..




lemma matches_triple_backtick_current:
  "matches [lit ''```''] s \<Longrightarrow> lookAhead 1 s = Some (lit ''`'')"
  by (auto simp: matches_def lookAhead_def getSlice_def current_def lit_def
        dest!: take_drop_Cons)

lemma code_declines_at_opening:
  "matches [lit ''```''] s \<Longrightarrow> parseCurrent (Suc f) s = Some (Inr None, s)"
  by (frule matches_triple_backtick_current) (simp add: parseCurrent.simps)

lemma code_declines_after_content:
  "lookAhead 1 s = Some (lit ''`'') \<Longrightarrow> \<not> matches [lit ''```''] s \<Longrightarrow>
   d = (if matches [lit ''``''] s then lit ''``'' else lit ''`'') \<Longrightarrow>
   match [d] s = (Inr (), s1) \<Longrightarrow> matches [lit ''```''] (snd (parseText d s1)) \<Longrightarrow>
   parseCurrent (Suc f) s = Some (Inr None, snd (parseText d s1))"
  by (auto simp: parseCurrent.simps Let_def case_prod_beta split: if_splits)







section \<open>The claims\<close>

text \<open>
  C1: for every input, \<^verbatim>\<open>parse\<close> returns a node: under the depth bound of \<open>parse\<close> and
  under every larger one the run ends, with the same node, and what it returns is a node,
  not a thrown error, so that no \<^verbatim>\<open>MismatchError\<close> leaves \<^verbatim>\<open>parse\<close>.
\<close>

theorem parse_total:
  "\<exists>node. parse input = Some (Inr node)
     \<and> (\<forall>k. parse_fuel (3 * length input + 2 + k) input = Some (Inr node))"
proof -
  from parse_result [of input] obtain n where "parse input = Some (Inr n)"
    by (auto simp: parse_def parse_fuel_def)
  then show ?thesis unfolding parse_fuel_more by simp
qed

text \<open>
  C2 (as the specification states it): inside a nested \<^verbatim>\<open>parseNext\<close> with a non-empty
  terminator, a blank line triggers the paragraph promotion.  The code does otherwise: in
  \<^verbatim>\<open>[a\n\nb](c)\<close> the call \<^verbatim>\<open>parseNext("]")\<close> for the label, started behind the bracket,
  returns the text \<^verbatim>\<open>a\<close> and leaves the cursor on the blank line; the link fails, and the
  paragraphs are made by the outermost call.
\<close>

theorem C2_nested_blank_line_counterexample:
  "parseNext 26 (lit '']'') \<lparr>chars = lit ''[a'' @ LF @ LF @ lit ''b](c)'', index = 1\<rparr>
     = Some (Inr (Text (lit ''a'')), \<lparr>chars = lit ''[a'' @ LF @ LF @ lit ''b](c)'', index = 2\<rparr>)
   \<and> matches NEW_PARAGRAPH \<lparr>chars = lit ''[a'' @ LF @ LF @ lit ''b](c)'', index = 2\<rparr>
   \<and> para_free (Text (lit ''a''))
   \<and> parse (lit ''[a'' @ LF @ LF @ lit ''b](c)'')
       = Some (Inr (Fragment [Paragraph [Text (lit ''[a'')], Paragraph [Text (lit ''b](c)'')]]))"
  by (simp add: eval_simps)

text \<open>
  C2 (amended): in every call of \<^verbatim>\<open>parseNext\<close> with a non-empty terminator the loop stops,
  without consuming anything, at any newline sequence, so that the paragraph promotion is
  never reached there; the node that such a call returns has no paragraph node at any
  depth.
\<close>

theorem nested_parseNext_no_promotion:
  assumes "e \<noteq> []"
  shows "(matches NEWLINE s \<longrightarrow> parseNext_loop (Suc f) e root acc s = Some (Inr (root, acc), s))
         \<and> (parseNext f e s = Some (r, s') \<longrightarrow> (\<exists>n. r = Inr n \<and> para_free n))"
  using assms nested_stops_at_newline nested_no_paragraph by blast

theorem nested_parseNext_no_promotion_witness:
  "lit '']'' \<noteq> []
   \<and> matches NEWLINE \<lparr>chars = lit ''[a'' @ LF @ LF @ lit ''b](c)'', index = 2\<rparr>
   \<and> parseNext_loop (Suc 0) (lit '']'') [] (lit ''a'')
        \<lparr>chars = lit ''[a'' @ LF @ LF @ lit ''b](c)'', index = 2\<rparr>
       = Some (Inr ([], lit ''a''), \<lparr>chars = lit ''[a'' @ LF @ LF @ lit ''b](c)'', index = 2\<rparr>)
   \<and> parseNext 26 (lit '']'') \<lparr>chars = lit ''[a'' @ LF @ LF @ lit ''b](c)'', index = 1\<rparr>
       = Some (Inr (Text (lit ''a'')), \<lparr>chars = lit ''[a'' @ LF @ LF @ lit ''b](c)'', index = 2\<rparr>)
   \<and> para_free (Text (lit ''a''))"
  using nested_parseNext_no_promotion [where e = "lit '']''" and f = 0 and root = "[]"
      and acc = "lit ''a''" and r = "Inr (Text [])"
      and s = "\<lparr>chars = lit ''[a'' @ LF @ LF @ lit ''b](c)'', index = 2\<rparr>"
      and s' = "\<lparr>chars = lit ''[a'' @ LF @ LF @ lit ''b](c)'', index = 2\<rparr>"]
    nested_parseNext_no_promotion [where e = "lit '']''" and f = 26 and root = "[]"
      and acc = "[]" and r = "Inr (Text (lit ''a''))"
      and s = "\<lparr>chars = lit ''[a'' @ LF @ LF @ lit ''b](c)'', index = 1\<rparr>"
      and s' = "\<lparr>chars = lit ''[a'' @ LF @ LF @ lit ''b](c)'', index = 2\<rparr>"]
  by (simp add: eval_simps)

text \<open>
  C3 (as the specification states it): \<^verbatim>\<open>parse("*a**")\<close> degrades to the literal text
  \<^verbatim>\<open>*a**\<close>, with no italic or bold node.  The code does otherwise: the nested
  \<^verbatim>\<open>parseNext("*")\<close> stops at the first \<^verbatim>\<open>*\<close> of the closing \<^verbatim>\<open>**\<close>, \<^verbatim>\<open>match("*")\<close> accepts
  it, and the result has an italic node.
\<close>

theorem C3_mismatched_emphasis_counterexample:
  "parse (lit ''*a**'') \<noteq> Some (Inr (Text (lit ''*a**'')))
   \<and> map_option (map_sum id has_emphasis) (parse (lit ''*a**'')) = Some (Inr True)"
  by (simp add: parse_mismatched_emphasis)

text \<open>
  C3 (amended): \<^verbatim>\<open>parse("*a**")\<close> returns a fragment of two children, an italic node around
  the text \<^verbatim>\<open>a\<close> and the literal text \<^verbatim>\<open>*\<close>: the first \<^verbatim>\<open>*\<close> of the trailing \<^verbatim>\<open>**\<close> closes
  the italic run, and only the last \<^verbatim>\<open>*\<close> degrades to text.
\<close>

theorem C3_mismatched_emphasis:
  "parse (lit ''*a**'') = Some (Inr (Fragment [Italic (Text (lit ''a'')), Text (lit ''*'')]))"
  by (rule parse_mismatched_emphasis)

text \<open>
  C4 (as the specification states it): in every tree that \<^verbatim>\<open>parse\<close> returns, paragraph
  nodes are direct children of the root only.  The code does otherwise when the outermost
  fragment has one child: for \<^verbatim>\<open>a\n\n\<close> the trailing empty paragraph is removed and the one
  paragraph left is returned itself, as the root.
\<close>

theorem C4_paragraph_root_counterexample:
  "parse (lit ''a'' @ LF @ LF) = Some (Inr (Paragraph [Text (lit ''a'')]))
   \<and> \<not> paragraphs_only_under_root (Paragraph [Text (lit ''a'')])"
  by (simp add: parse_trailing_blank_line paragraphs_only_under_root_def)

text \<open>
  C4 (amended): in every tree that \<^verbatim>\<open>parse\<close> returns, no paragraph node is inside another
  paragraph node or inside an italic, bold, strike or link node: paragraph nodes are direct
  children of the returned fragment or, when the outermost fragment had one child and that
  child was returned in its place, the returned root itself.
\<close>

theorem parse_paragraphs_at_top:
  "\<exists>node. parse input = Some (Inr node) \<and> paragraphs_at_top node"
  using parse_result [of input] by (auto simp: parse_def parse_fuel_def)

text \<open>
  C5: \<^verbatim>\<open>parse("a\n\nb")\<close> is a fragment of two paragraphs, the first with the text \<^verbatim>\<open>a\<close>,
  the second with the text \<^verbatim>\<open>b\<close>, and so is the result for every other pair of newline
  sequences between \<^verbatim>\<open>a\<close> and \<^verbatim>\<open>b\<close>.
\<close>

theorem parse_paragraph_split:
  "\<forall>n1 \<in> set NEWLINE. \<forall>n2 \<in> set NEWLINE.
     parse (lit ''a'' @ n1 @ n2 @ lit ''b'')
       = Some (Inr (Fragment [Paragraph [Text (lit ''a'')], Paragraph [Text (lit ''b'')]]))"
  using parse_blank_line_pairs by (simp add: list_all_iff)

theorem parse_paragraph_split_witness:
  "LF \<in> set NEWLINE \<and> CR @ LF \<in> set NEWLINE
   \<and> parse (lit ''a'' @ LF @ LF @ lit ''b'')
       = Some (Inr (Fragment [Paragraph [Text (lit ''a'')], Paragraph [Text (lit ''b'')]]))
   \<and> parse (lit ''a'' @ (CR @ LF) @ LF @ lit ''b'')
       = Some (Inr (Fragment [Paragraph [Text (lit ''a'')], Paragraph [Text (lit ''b'')]]))"
  using parse_paragraph_split by (simp add: NEWLINE_def)

text \<open>
  C6: what the outermost \<^verbatim>\<open>parseNext\<close> returns is made from the children and the pending
  text that its loop leaves: the text is flushed, a trailing empty paragraph is removed,
  and then a single child is returned itself, any other number of children in the
  fragment; \<^verbatim>\<open>parse("hello")\<close> is the text node, \<^verbatim>\<open>parse("")\<close> the fragment without children.
\<close>

theorem parse_collapses_single_child:
  "(\<exists>root acc s'.
      parseNext_loop (3 * length input + 1) [] [] [] (new_parser input) = Some (Inr (root, acc), s')
      \<and> parse input
          = Some (Inr (collapse (without_trailing_empty_paragraph (flush_text root acc)))))
   \<and> collapse [child] = child
   \<and> (length root \<noteq> 1 \<longrightarrow> collapse root = Fragment root)
   \<and> parse (lit ''hello'') = Some (Inr (Text (lit ''hello'')))
   \<and> parse [] = Some (Inr (Fragment []))"
proof -
  from parse_result [of input] obtain n s' where
    run: "parseNext (Suc (3 * length input + 1)) [] (new_parser input) = Some (Inr n, s')"
    by auto
  then obtain root acc where
    "parseNext_loop (3 * length input + 1) [] [] [] (new_parser input) = Some (Inr (root, acc), s')"
    and "n = finish root acc"
    by (auto simp: parseNext.simps split: option.splits sum.splits prod.splits)
  with run have "\<exists>root acc s'.
      parseNext_loop (3 * length input + 1) [] [] [] (new_parser input) = Some (Inr (root, acc), s')
      \<and> parse input
          = Some (Inr (collapse (without_trailing_empty_paragraph (flush_text root acc))))"
    by (auto simp: parse_def parse_fuel_def finish_collapse)
  then show ?thesis
    by (simp add: parse_hello parse_empty collapse_eq del: One_nat_def)
qed

theorem parse_collapses_single_child_witness:
  "length [Text (lit ''a''), Text (lit ''b'')] \<noteq> 1
   \<and> collapse [Text (lit ''a''), Text (lit ''b'')] = Fragment [Text (lit ''a''), Text (lit ''b'')]
   \<and> parse (lit ''hello'') = Some (Inr (Text (lit ''hello'')))"
  using parse_collapses_single_child [of "[]" "Text []" "[Text (lit ''a''), Text (lit ''b'')]"]
  by simp



text \<open>
  C8: \<^verbatim>\<open>parse("```a```")\<close> is the text node with the whole input.  \<^verbatim>\<open>parseCurrent\<close> returns
  \<^verbatim>\<open>null\<close> when three backticks stand at the opening position, and when they stand at the
  cursor after the opening delimiter has been consumed and the content scanned.
\<close>

theorem code_span_declines_triple_backticks:
  "parse (lit ''```a```'') = Some (Inr (Text (lit ''```a```'')))
   \<and> (matches [lit ''```''] s \<longrightarrow> parseCurrent (Suc f) s = Some (Inr None, s))
   \<and> (lookAhead 1 s = Some (lit ''`'') \<and> \<not> matches [lit ''```''] s
        \<and> d = (if matches [lit ''``''] s then lit ''``'' else lit ''`'')
        \<and> match [d] s = (Inr (), s1) \<and> matches [lit ''```''] (snd (parseText d s1)) \<longrightarrow>
        parseCurrent (Suc f) s = Some (Inr None, snd (parseText d s1)))"
  using code_declines_at_opening [of s f] code_declines_after_content [of s d s1 f]
    parse_triple_backticks
  by blast

theorem code_span_declines_triple_backticks_witness:
  "matches [lit ''```''] (new_parser (lit ''```a```''))
   \<and> parseCurrent (Suc 0) (new_parser (lit ''```a```''))
       = Some (Inr None, new_parser (lit ''```a```''))
   \<and> lookAhead 1 \<lparr>chars = lit ''```a```'', index = 1\<rparr> = Some (lit ''`'')
   \<and> \<not> matches [lit ''```''] \<lparr>chars = lit ''```a```'', index = 1\<rparr>
   \<and> match [lit ''``''] \<lparr>chars = lit ''```a```'', index = 1\<rparr>
       = (Inr (), \<lparr>chars = lit ''```a```'', index = 3\<rparr>)
   \<and> parseText (lit ''``'') \<lparr>chars = lit ''```a```'', index = 3\<rparr>
       = (lit ''a'', \<lparr>chars = lit ''```a```'', index = 4\<rparr>)
   \<and> matches [lit ''```''] \<lparr>chars = lit ''```a```'', index = 4\<rparr>
   \<and> parseCurrent (Suc 0) \<lparr>chars = lit ''```a```'', index = 1\<rparr>
       = Some (Inr None, \<lparr>chars = lit ''```a```'', index = 4\<rparr>)"
  using code_span_declines_triple_backticks [where s = "new_parser (lit ''```a```'')" and f = 0
      and d = "[]" and ?s1.0 = "new_parser []"]
    code_span_declines_triple_backticks [where s = "\<lparr>chars = lit ''```a```'', index = 1\<rparr>"
      and f = 0 and d = "lit ''``''" and ?s1.0 = "\<lparr>chars = lit ''```a```'', index = 3\<rparr>"]
  by (simp add: eval_simps)

text \<open>
  C9: \<^verbatim>\<open>match\<close> throws \<^verbatim>\<open>MismatchError\<close> exactly when none of its candidates stands
  literally at the current position; when it throws, the cursor is unchanged; when a
  candidate stands there, the cursor advances by the length of the first such candidate.
\<close>

theorem match_expect:
  "(fst (match cands s) = Inl MismatchError \<longleftrightarrow> (\<forall>c \<in> set cands. \<not> literal_at c s))
   \<and> (fst (match cands s) = Inl MismatchError \<longrightarrow> snd (match cands s) = s)
   \<and> (\<forall>c. find (\<lambda>c. literal_at c s) cands = Some c \<longrightarrow>
          match cands s = (Inr (), s\<lparr>index := index s + length c\<rparr>))"
  by (auto simp: match_find advance_def find_None_iff split: option.splits dest: find_SomeD)

theorem match_expect_witness:
  "find (\<lambda>c. literal_at c (new_parser (lit ''~~a''))) [lit ''*'', lit ''~~''] = Some (lit ''~~'')
   \<and> match [lit ''*'', lit ''~~''] (new_parser (lit ''~~a''))
       = (Inr (), \<lparr>chars = lit ''~~a'', index = 2\<rparr>)
   \<and> \<not> literal_at (lit ''*'') (new_parser (lit ''a~~''))
   \<and> \<not> literal_at (lit ''~~'') (new_parser (lit ''a~~''))
   \<and> match [lit ''*'', lit ''~~''] (new_parser (lit ''a~~''))
       = (Inl MismatchError, new_parser (lit ''a~~''))"
  using match_expect [of "[lit ''*'', lit ''~~'']" "new_parser (lit ''~~a'')"]
    match_expect [of "[lit ''*'', lit ''~~'']" "new_parser (lit ''a~~'')"]
  by (simp add: literal_at_def new_parser_def lit_def prod_eq_iff)




end
